theory Spec2Isabelle
  imports Complex_Main "HOL-Library.Sublist"
begin

section \<open>Python values used by the subtitle segmenter\<close>

text \<open>
  A Python string is a sequence of Unicode code points. The alignment's
  \<^verbatim>\<open>characters\<close> are single-character strings, modelled by their code point;
  a list of them is also the string \<^verbatim>\<open>"".join(words)\<close> builds.

  Times are kept abstract: any type with a subtraction, a zero and a comparison.
  No law of arithmetic is assumed unless a theorem names a stronger sort, so the
  results that need none hold for whatever the number type does.
\<close>

type_synonym codepoint = nat

type_synonym 't entry = "codepoint list \<times> 't \<times> 't"

abbreviation ascii_space :: codepoint where
  "ascii_space \<equiv> 32"

text \<open>
  The exceptions of the script: the three built-in ones its statements can raise,
  the \<^verbatim>\<open>Exception("No templates found in templates/")\<close> of line 201, and whatever
  the speech client raises.
\<close>

datatype py_error =
    IndexError
  | NameError
  | ValueError
  | NoTemplatesFound
  | ApiError

text \<open>
  \<^verbatim>\<open>str.isspace()\<close> on a one-character string: the code points Python
  classifies as whitespace (bidirectional class WS, B or S, or category Zs).
\<close>

definition py_isspace :: "codepoint \<Rightarrow> bool" where
  "py_isspace c =
     ((9 \<le> c \<and> c \<le> 13) \<or> (28 \<le> c \<and> c \<le> 32) \<or> c = 133 \<or> c = 160 \<or> c = 5760
      \<or> (8192 \<le> c \<and> c \<le> 8202) \<or> c = 8232 \<or> c = 8233 \<or> c = 8239 \<or> c = 8287
      \<or> c = 12288)"

text \<open>\<^verbatim>\<open>str.strip()\<close>: leading and trailing whitespace removed.\<close>

definition py_strip :: "codepoint list \<Rightarrow> codepoint list" where
  "py_strip s = rev (dropWhile py_isspace (rev (dropWhile py_isspace s)))"

text \<open>\<^verbatim>\<open>xs[i]\<close> for an index \<open>i \<ge> 0\<close>: IndexError out of range.\<close>

definition py_index :: "'a list \<Rightarrow> nat \<Rightarrow> py_error + 'a" where
  "py_index xs i = (if i < length xs then Inr (xs ! i) else Inl IndexError)"

section \<open>The segmenter: \<^verbatim>\<open>create_subtitle_list\<close>\<close>

record 't alignment =
  characters :: "codepoint list"
  character_start_times_seconds :: "'t list"
  character_end_times_seconds :: "'t list"

text \<open>The local variables the loop updates.\<close>

record 't locals =
  subtitles :: "'t entry list"
  words :: "codepoint list"
  start_time :: "'t option"

text \<open>
  The block the source has twice (lines 96-101 and 119-123): join the buffer,
  compute the duration, append the entry when \<^verbatim>\<open>duration > 0 and text.strip()\<close>.
\<close>

definition append_if_valid ::
  "'t::{minus,zero,ord} entry list \<Rightarrow> codepoint list \<Rightarrow> 't \<Rightarrow> 't \<Rightarrow> 't entry list" where
  "append_if_valid subs ws st end_time =
     (let text = ws; duration = end_time - st
      in if 0 < duration \<and> py_strip text \<noteq> [] then subs @ [(text, st, duration)] else subs)"

text \<open>One iteration of the \<^verbatim>\<open>for i, char in enumerate(...)\<close> loop (lines 93-110).\<close>

definition loop_body ::
  "'t::{minus,zero,ord} alignment \<Rightarrow> nat \<Rightarrow> codepoint \<Rightarrow> 't locals \<Rightarrow> py_error + 't locals" where
  "loop_body a i char s =
     (if py_isspace char \<and> char = ascii_space then
        (if words s \<noteq> [] then
           (case start_time s of
              None \<Rightarrow> Inr s
            | Some st \<Rightarrow>
                (case py_index (character_start_times_seconds a) i of
                   Inl e \<Rightarrow> Inl e
                 | Inr end_time \<Rightarrow>
                     Inr (s\<lparr>subtitles := append_if_valid (subtitles s) (words s) st end_time,
                            words := [], start_time := None\<rparr>)))
         else Inr s)
      else
        Inr (s\<lparr>start_time :=
                 (if start_time s = None \<and> i < length (character_start_times_seconds a)
                  then Some (character_start_times_seconds a ! i) else start_time s),
               words := words s @ [char]\<rparr>))"

fun for_loop ::
  "'t::{minus,zero,ord} alignment \<Rightarrow> nat \<Rightarrow> codepoint list \<Rightarrow> 't locals \<Rightarrow> py_error + 't locals" where
  "for_loop a i [] s = Inr s"
| "for_loop a i (char # cs) s =
     (case loop_body a i char s of
        Inl e \<Rightarrow> Inl e
      | Inr s' \<Rightarrow> for_loop a (Suc i) cs s')"

text \<open>
  The value of \<^verbatim>\<open>i\<close> after the loop: unbound when the loop body never ran,
  else the last index.
\<close>

definition last_index :: "'a list \<Rightarrow> nat option" where
  "last_index cs = (if cs = [] then None else Some (length cs - 1))"

text \<open>
  Lines 113-125. The condition is evaluated left to right and stops at the first
  false conjunct, so an unbound \<^verbatim>\<open>i\<close> is read only when a word is in
  progress.
\<close>

definition last_word ::
  "'t::{minus,zero,ord} alignment \<Rightarrow> nat option \<Rightarrow> 't locals \<Rightarrow> py_error + 't entry list" where
  "last_word a i s =
     (if words s \<noteq> [] then
        (case start_time s of
           None \<Rightarrow> Inr (subtitles s)
         | Some st \<Rightarrow>
             (case i of
                None \<Rightarrow> Inl NameError
              | Some i \<Rightarrow>
                  if i < length (character_end_times_seconds a)
                  then Inr (append_if_valid (subtitles s) (words s) st
                              (character_end_times_seconds a ! i))
                  else Inr (subtitles s)))
      else Inr (subtitles s))"

definition initial :: "'t locals" where
  "initial = \<lparr>subtitles = [], words = [], start_time = None\<rparr>"

definition create_subtitle_list ::
  "'t::{minus,zero,ord} alignment \<Rightarrow> py_error + 't entry list" where
  "create_subtitle_list a =
     (case for_loop a 0 (characters a) initial of
        Inl e \<Rightarrow> Inl e
      | Inr s \<Rightarrow> last_word a (last_index (characters a)) s)"

section \<open>The orchestrator: the \<^verbatim>\<open>__main__\<close> block\<close>

text \<open>
  The script's main block is straight-line code around calls to a speech service
  and a video library. The model records each outside call as an event, in program
  order, and returns the trace with the outcome. What the outside world answers is
  a parameter: the speech call's result (or the exception it raises), the listing of
  \<^verbatim>\<open>templates/\<close> and the index the random choice takes. The video library's
  calls are taken to return normally.
\<close>

datatype event =
    Synthesize
  | ListTemplates
  | LoadVideo string
  | CropVideo
  | AddPeterImage
  | SubtitleClip "codepoint list"
  | WriteTempAudio
  | LoadAudio
  | RemoveTempAudio
  | Composite
  | WriteVideoFile
  | CloseClips

record 't world =
  speech :: "py_error + 't alignment"
  template_dir :: "string list"
  pick :: nat

text \<open>\<^verbatim>\<open>random.choice(seq)\<close>: IndexError on an empty sequence.\<close>

definition random_choice :: "'a list \<Rightarrow> nat \<Rightarrow> py_error + 'a" where
  "random_choice seq k = (if seq = [] then Inl IndexError else Inr (seq ! (k mod length seq)))"

text \<open>
  \<^verbatim>\<open>max(iterable)\<close>: ValueError when the iterable is empty; otherwise the first
  item no later item exceeds.
\<close>

fun py_max :: "'t::ord list \<Rightarrow> py_error + 't" where
  "py_max [] = Inl ValueError"
| "py_max (x # xs) =
     Inr (fold (\<lambda>item max_item. if max_item < item then item else max_item) xs x)"

text \<open>Lines 216-217: the last subtitle's end plus two seconds.\<close>

definition overall_duration :: "'t::{numeral,ord} entry list \<Rightarrow> py_error + 't" where
  "overall_duration subs =
     (case py_max (map (\<lambda>(_, start, duration). start + duration) subs) of
        Inl e \<Rightarrow> Inl e
      | Inr last_subtitle_end \<Rightarrow> Inr (last_subtitle_end + 2))"

definition main_block ::
  "'t::{numeral,minus,zero,ord} world \<Rightarrow> event list \<times> (py_error + unit)" where
  "main_block w =
     (case speech w of
        Inl e \<Rightarrow> ([Synthesize], Inl e)
      | Inr timestamps \<Rightarrow>
          (case create_subtitle_list timestamps of
             Inl e \<Rightarrow> ([Synthesize], Inl e)
           | Inr subs \<Rightarrow>
               (case random_choice (template_dir w) (pick w) of
                  Inl e \<Rightarrow>
                    ([Synthesize, ListTemplates],
                     Inl (if e = IndexError then NoTemplatesFound else e))
                | Inr video_path \<Rightarrow>
                    (let tr = [Synthesize, ListTemplates, LoadVideo video_path, CropVideo,
                               AddPeterImage]
                              @ map (\<lambda>(text, start, duration). SubtitleClip text) subs
                     in case overall_duration subs of
                          Inl e \<Rightarrow> (tr, Inl e)
                        | Inr d \<Rightarrow>
                            (tr @ [WriteTempAudio, LoadAudio, RemoveTempAudio, Composite,
                                   WriteVideoFile, CloseClips],
                             Inr ())))))"

section \<open>The segmentation as the specification words it\<close>

text \<open>
  A word is a maximal run of characters other than the ASCII space. \<open>spec_words i cs\<close>
  lists the runs of \<open>cs\<close> from left to right, each with the index of its first
  character, \<open>i\<close> being the index of the head of \<open>cs\<close>.
\<close>

function spec_words :: "nat \<Rightarrow> codepoint list \<Rightarrow> (nat \<times> codepoint list) list" where
  "spec_words i [] = []"
| "spec_words i (c # cs) =
     (if c = ascii_space then spec_words (Suc i) cs
      else (i, c # takeWhile (\<lambda>x. x \<noteq> ascii_space) cs)
             # spec_words (i + length (takeWhile (\<lambda>x. x \<noteq> ascii_space) cs) + 2)
                 (drop 1 (dropWhile (\<lambda>x. x \<noteq> ascii_space) cs)))"
  by pat_completeness auto
termination
proof (relation "measure (\<lambda>(i, cs). length cs)")
  fix i :: nat and c :: codepoint and cs :: "codepoint list"
  have "length (dropWhile (\<lambda>x. x \<noteq> ascii_space) cs) \<le> length cs"
    by (rule length_dropWhile_le)
  then show "((i + length (takeWhile (\<lambda>x. x \<noteq> ascii_space) cs) + 2,
               drop 1 (dropWhile (\<lambda>x. x \<noteq> ascii_space) cs)), i, c # cs)
             \<in> measure (\<lambda>(i, cs). length cs)"
    by simp
qed simp_all

text \<open>
  The entry of the word at index \<open>j\<close>: it starts with its first character and ends
  where the space after it starts, or, for a word that reaches the end of the input,
  where the last character ends. It is kept when its duration is positive and its
  text is not blank.
\<close>

definition spec_entry ::
  "'t::{minus,zero,ord} alignment \<Rightarrow> nat \<times> codepoint list \<Rightarrow> 't entry list" where
  "spec_entry a jw =
     (case jw of (j, w) \<Rightarrow>
        let n = length (characters a);
            k = j + length w;
            st = character_start_times_seconds a ! j;
            end_time = (if k < n then character_start_times_seconds a ! k
                        else character_end_times_seconds a ! (n - 1));
            duration = end_time - st
        in if 0 < duration \<and> py_strip w \<noteq> [] then [(w, st, duration)] else [])"

definition spec_subtitles :: "'t::{minus,zero,ord} alignment \<Rightarrow> 't entry list" where
  "spec_subtitles a = concat (map (spec_entry a) (spec_words 0 (characters a)))"

section \<open>Invariants of the loop\<close>

text \<open>What line 100 asks of an entry before appending it.\<close>

definition valid_entry :: "'t::{minus,zero,ord} entry \<Rightarrow> bool" where
  "valid_entry e = (case e of (text, st, duration) \<Rightarrow> 0 < duration \<and> py_strip text \<noteq> [])"

text \<open>
  The buffer and the start time go together: a start time is recorded only with a
  character in the buffer, and a buffer without a start time means that the word
  began beyond the end of the start times; \<open>i\<close> is the number of characters read.
\<close>

definition wf_locals :: "'t alignment \<Rightarrow> nat \<Rightarrow> 't locals \<Rightarrow> bool" where
  "wf_locals a i s =
     ((start_time s \<noteq> None \<longrightarrow> words s \<noteq> []) \<and>
      (words s \<noteq> [] \<and> start_time s = None \<longrightarrow> length (character_start_times_seconds a) < i))"

text \<open>
  After reading \<open>pre\<close>: the buffer holds no space, a timed buffer is the run that
  ends \<open>pre\<close>, and every entry's text is a run of \<open>pre\<close> without a space.
\<close>

definition run_inv :: "codepoint list \<Rightarrow> 't locals \<Rightarrow> bool" where
  "run_inv pre s =
     (ascii_space \<notin> set (words s) \<and>
      (start_time s \<noteq> None \<longrightarrow> suffix (words s) pre) \<and>
      (\<forall>e\<in>set (subtitles s). ascii_space \<notin> set (fst e) \<and> sublist (fst e) pre))"

text \<open>
  With start times in non-decreasing order: the entries' start times are sorted, and
  no entry, nor the start time of the word in progress, is later than a start time
  still to be read; \<open>i\<close> is the number of characters read.
\<close>

definition entry_start :: "'t entry \<Rightarrow> 't" where
  "entry_start e = (case e of (text, st, duration) \<Rightarrow> st)"

definition sorted_inv :: "'t::linorder alignment \<Rightarrow> nat \<Rightarrow> 't locals \<Rightarrow> bool" where
  "sorted_inv a i s =
     (sorted (map entry_start (subtitles s)) \<and>
      (\<forall>e\<in>set (subtitles s). \<forall>x\<in>set (drop i (character_start_times_seconds a)).
          entry_start e \<le> x) \<and>
      (\<forall>st. start_time s = Some st \<longrightarrow>
          (\<forall>e\<in>set (subtitles s). entry_start e \<le> st) \<and>
          (\<forall>x\<in>set (drop i (character_start_times_seconds a)). st \<le> x)))"

section \<open>Example inputs\<close>

text \<open>The specification's example: \<^verbatim>\<open>"hi there"\<close>, one tenth of a second a character.\<close>

definition hi_there :: "real alignment" where
  "hi_there =
     \<lparr>characters = [104, 105, ascii_space, 116, 104, 101, 114, 101],
      character_start_times_seconds = [0, 0.1, 0.2, 0.3, 0.4, 0.5, 0.6, 0.7],
      character_end_times_seconds = [0.1, 0.2, 0.3, 0.4, 0.5, 0.6, 0.7, 0.8]\<rparr>"

text \<open>A tab inside a word: the characters a, tab, b, space, c, one second each.\<close>

definition tab_inside :: "real alignment" where
  "tab_inside =
     \<lparr>characters = [97, 9, 98, ascii_space, 99],
      character_start_times_seconds = [0, 1, 2, 3, 4],
      character_end_times_seconds = [1, 2, 3, 4, 5]\<rparr>"

text \<open>Start times out of order: \<^verbatim>\<open>"a b"\<close> with the second word timed before the first.\<close>

definition out_of_order :: "real alignment" where
  "out_of_order =
     \<lparr>characters = [97, ascii_space, 98],
      character_start_times_seconds = [5, 6, 1],
      character_end_times_seconds = [6, 7, 2]\<rparr>"


text \<open>A run whose text is a single space, with one template to choose.\<close>

definition only_a_space :: "real world" where
  "only_a_space =
     \<lparr>speech = Inr \<lparr>characters = [ascii_space], character_start_times_seconds = [0],
                     character_end_times_seconds = [1]\<rparr>,
      template_dir = [''background.mp4''], pick = 0\<rparr>"

section \<open>The loop, step by step\<close>

lemma loop_body_space:
  "loop_body a i ascii_space s =
     (if words s = [] then Inr s
      else case start_time s of
             None \<Rightarrow> Inr s
           | Some st \<Rightarrow>
               if i < length (character_start_times_seconds a)
               then Inr (s\<lparr>subtitles := append_if_valid (subtitles s) (words s) st
                                          (character_start_times_seconds a ! i),
                          words := [], start_time := None\<rparr>)
               else Inl IndexError)"
  by (simp add: loop_body_def py_isspace_def py_index_def split: option.splits)

lemma loop_body_char:
  "char \<noteq> ascii_space \<Longrightarrow>
   loop_body a i char s =
     Inr (s\<lparr>start_time :=
              (if start_time s = None \<and> i < length (character_start_times_seconds a)
               then Some (character_start_times_seconds a ! i) else start_time s),
            words := words s @ [char]\<rparr>)"
  by (simp add: loop_body_def)

lemma for_loop_append:
  "for_loop a i (xs @ ys) s =
     (case for_loop a i xs s of
        Inl e \<Rightarrow> Inl e
      | Inr s' \<Rightarrow> for_loop a (i + length xs) ys s')"
  by (induction xs arbitrary: i s) (auto split: sum.splits)

text \<open>A run without a space only grows the buffer; it sets the start time once.\<close>

lemma for_loop_run:
  "ascii_space \<notin> set w \<Longrightarrow>
   for_loop a i w s =
     Inr (s\<lparr>start_time :=
              (if start_time s = None \<and> w \<noteq> [] \<and> i < length (character_start_times_seconds a)
               then Some (character_start_times_seconds a ! i) else start_time s),
            words := words s @ w\<rparr>)"
proof (induction w arbitrary: i s)
  case Nil
  then show ?case by simp
next
  case (Cons c w)
  then show ?case by (simp add: loop_body_char)
qed

lemma create_subtitle_list_InrD:
  assumes "create_subtitle_list a = Inr es"
  obtains s where "for_loop a 0 (characters a) initial = Inr s"
    and "last_word a (last_index (characters a)) s = Inr es"
  using assms by (auto simp: create_subtitle_list_def split: sum.splits)

lemma loop_body_cases:
  assumes "loop_body a i c s = Inr s'"
  obtains
    (skip) "c = ascii_space" "s' = s" "words s = [] \<or> start_time s = None"
  | (close) st where "c = ascii_space" "words s \<noteq> []" "start_time s = Some st"
      "i < length (character_start_times_seconds a)"
      "s' = s\<lparr>subtitles := append_if_valid (subtitles s) (words s) st
                              (character_start_times_seconds a ! i),
               words := [], start_time := None\<rparr>"
  | (grow) "c \<noteq> ascii_space"
      "s' = s\<lparr>start_time :=
               (if start_time s = None \<and> i < length (character_start_times_seconds a)
                then Some (character_start_times_seconds a ! i) else start_time s),
             words := words s @ [c]\<rparr>"
proof (cases "c = ascii_space")
  case True
  with assms show ?thesis
    by (auto simp: loop_body_space split: if_splits option.splits intro: skip close)
next
  case False
  with assms show ?thesis
    by (auto simp: loop_body_char intro: grow)
qed

lemma last_word_cases:
  assumes "last_word a i s = Inr es"
  obtains
    (none) "es = subtitles s"
  | (flush) st j where "words s \<noteq> []" "start_time s = Some st" "i = Some j"
      "j < length (character_end_times_seconds a)"
      "es = append_if_valid (subtitles s) (words s) st (character_end_times_seconds a ! j)"
  using assms
  by (auto simp: last_word_def split: if_splits option.splits)

lemma set_append_if_valid:
  "set (append_if_valid subs ws st et) \<subseteq> insert (ws, st, et - st) (set subs)"
  by (auto simp: append_if_valid_def Let_def)

lemma append_if_valid_new:
  "e \<in> set (append_if_valid subs ws st et) \<Longrightarrow> e \<notin> set subs \<Longrightarrow>
   e = (ws, st, et - st) \<and> 0 < et - st \<and> py_strip ws \<noteq> []"
  by (auto simp: append_if_valid_def Let_def split: if_splits)

lemma loop_body_valid:
  assumes "loop_body a i c s = Inr s'" and "\<forall>e\<in>set (subtitles s). valid_entry e"
  shows "\<forall>e\<in>set (subtitles s'). valid_entry e"
  using assms(1)
proof (cases rule: loop_body_cases)
  case (close st)
  with assms(2) show ?thesis
    by (auto simp: valid_entry_def dest!: append_if_valid_new)
qed (use assms(2) in auto)

lemma for_loop_valid:
  "for_loop a i cs s = Inr s' \<Longrightarrow> \<forall>e\<in>set (subtitles s). valid_entry e \<Longrightarrow>
   \<forall>e\<in>set (subtitles s'). valid_entry e"
proof (induction cs arbitrary: i s)
  case Nil
  then show ?case by simp
next
  case (Cons c cs)
  from Cons.prems(1) obtain s1 where
    "loop_body a i c s = Inr s1" and "for_loop a (Suc i) cs s1 = Inr s'"
    by (auto split: sum.splits)
  with Cons.IH Cons.prems(2) show ?case
    by (blast dest: loop_body_valid)
qed

lemma wf_initial: "wf_locals a 0 initial"
  by (simp add: wf_locals_def initial_def)

lemma loop_body_wf:
  assumes "loop_body a i c s = Inr s'" and "wf_locals a i s"
  shows "wf_locals a (Suc i) s'"
  using assms(1)
  by (cases rule: loop_body_cases) (use assms(2) in \<open>auto simp: wf_locals_def\<close>)

lemma for_loop_wf:
  "for_loop a i cs s = Inr s' \<Longrightarrow> wf_locals a i s \<Longrightarrow> wf_locals a (i + length cs) s'"
proof (induction cs arbitrary: i s)
  case Nil
  then show ?case by simp
next
  case (Cons c cs)
  from Cons.prems(1) obtain s1 where
    s1: "loop_body a i c s = Inr s1" and rest: "for_loop a (Suc i) cs s1 = Inr s'"
    by (auto split: sum.splits)
  from Cons.IH [OF rest loop_body_wf [OF s1 Cons.prems(2)]] show ?case by simp
qed

lemma sublist_snoc: "sublist xs ys \<Longrightarrow> sublist xs (ys @ [c])"
  by (metis append_assoc sublist_def)

lemma loop_body_run_inv:
  assumes "loop_body a (length pre) c s = Inr s'"
    and "wf_locals a (length pre) s" and "run_inv pre s"
  shows "run_inv (pre @ [c]) s'"
  using assms(1)
proof (cases rule: loop_body_cases)
  case skip
  with assms(2,3) show ?thesis
    by (auto simp: run_inv_def wf_locals_def intro: sublist_snoc)
next
  case (close st)
  with assms(3) show ?thesis
    by (auto simp: run_inv_def intro: sublist_snoc dest!: append_if_valid_new)
next
  case grow
  with assms(2,3) show ?thesis
    by (auto simp: run_inv_def wf_locals_def intro: sublist_snoc)
qed

lemma for_loop_run_inv:
  "for_loop a (length pre) cs s = Inr s' \<Longrightarrow> wf_locals a (length pre) s \<Longrightarrow> run_inv pre s \<Longrightarrow>
   run_inv (pre @ cs) s'"
proof (induction cs arbitrary: pre s)
  case Nil
  then show ?case by simp
next
  case (Cons c cs)
  from Cons.prems(1) obtain s1 where
    s1: "loop_body a (length pre) c s = Inr s1" and
    rest: "for_loop a (length (pre @ [c])) cs s1 = Inr s'"
    by (auto split: sum.splits)
  have "wf_locals a (length (pre @ [c])) s1"
    using loop_body_wf [OF s1 Cons.prems(2)] by simp
  moreover have "run_inv (pre @ [c]) s1"
    by (rule loop_body_run_inv [OF s1 Cons.prems(2,3)])
  ultimately have "run_inv ((pre @ [c]) @ cs) s'"
    by (rule Cons.IH [OF rest])
  then show ?case by simp
qed

lemma for_loop_no_space_in_words:
  "for_loop a i cs s = Inr s' \<Longrightarrow> ascii_space \<notin> set (words s) \<Longrightarrow> ascii_space \<notin> set (words s')"
proof (induction cs arbitrary: i s)
  case Nil
  then show ?case by simp
next
  case (Cons c cs)
  from Cons.prems(1) obtain s1 where
    s1: "loop_body a i c s = Inr s1" and rest: "for_loop a (Suc i) cs s1 = Inr s'"
    by (auto split: sum.splits)
  from s1 Cons.prems(2) have "ascii_space \<notin> set (words s1)"
    by (cases rule: loop_body_cases) auto
  with rest show ?case by (rule Cons.IH)
qed

lemmas eval_defs =
  create_subtitle_list_def initial_def loop_body_def py_isspace_def py_index_def
  last_word_def last_index_def append_if_valid_def py_strip_def

lemma hi_there_result:
  "create_subtitle_list hi_there =
     Inr [([104, 105], 0, 0.2), ([116, 104, 101, 114, 101], 0.3, 0.5)]"
  by (simp add: hi_there_def eval_defs)

section \<open>Decomposition at the last word and refinement\<close>

lemma loop_body_characters_update [simp]:
  "loop_body (a\<lparr>characters := cs\<rparr>) i c s = loop_body a i c s"
  by (cases "c = ascii_space")
    (simp_all add: loop_body_space loop_body_char split: option.splits)

lemma for_loop_characters_update [simp]:
  "for_loop (a\<lparr>characters := cs\<rparr>) i xs s = for_loop a i xs s"
  by (induction xs arbitrary: i s) (auto split: sum.splits)

lemma last_word_characters_update [simp]:
  "last_word (a\<lparr>characters := cs\<rparr>) = last_word a"
  by (intro ext) (auto simp: last_word_def split: option.splits)

lemma append_if_valid_append:
  "append_if_valid subs ws st et = subs @ append_if_valid [] ws st et"
  by (simp add: append_if_valid_def Let_def)

text \<open>After a space, or before the first character, no start time is recorded.\<close>

lemma after_separator:
  assumes "for_loop a 0 pre initial = Inr s" and "pre = [] \<or> last pre = ascii_space"
  shows "start_time s = None"
    and "length pre \<le> length (character_start_times_seconds a) \<Longrightarrow> words s = []"
proof -
  have wf: "wf_locals a (length pre) s"
    using for_loop_wf [OF assms(1) wf_initial] by simp
  show none: "start_time s = None"
  proof (cases "pre = []")
    case True
    with assms(1) show ?thesis by (auto simp: initial_def)
  next
    case False
    with assms(2) have pre: "pre = butlast pre @ [ascii_space]"
      by (metis append_butlast_last_id)
    from assms(1) obtain s0 where
      s0: "for_loop a 0 (butlast pre) initial = Inr s0" and
      body: "loop_body a (length (butlast pre)) ascii_space s0 = Inr s"
      by (subst (asm) pre) (auto simp: for_loop_append split: sum.splits)
    have "wf_locals a (length (butlast pre)) s0"
      using for_loop_wf [OF s0 wf_initial] by simp
    with body show ?thesis
      by (cases rule: loop_body_cases) (auto simp: wf_locals_def)
  qed
  show "words s = []" if "length pre \<le> length (character_start_times_seconds a)"
    using wf none that by (auto simp: wf_locals_def)
qed

lemma last_word_untimed: "start_time s = None \<Longrightarrow> last_word a i s = Inr (subtitles s)"
  by (simp add: last_word_def)

text \<open>
  The input ends with a word \<open>w\<close>: the result is the result for the characters
  before it, followed by what the trailing block appends for \<open>w\<close>.
\<close>

lemma trailing_word:
  assumes chars: "characters a = pre @ w" and w: "w \<noteq> []" "ascii_space \<notin> set w"
    and pre: "pre = [] \<or> last pre = ascii_space"
  shows "create_subtitle_list a =
     (case create_subtitle_list (a\<lparr>characters := pre\<rparr>) of
        Inl e \<Rightarrow> Inl e
      | Inr es \<Rightarrow>
          Inr (es @
            (if length pre < length (character_start_times_seconds a)
                \<and> length (characters a) \<le> length (character_end_times_seconds a)
             then append_if_valid [] w (character_start_times_seconds a ! length pre)
                    (character_end_times_seconds a ! (length (characters a) - 1))
             else [])))"
proof (cases "for_loop a 0 pre initial")
  case (Inl e)
  then show ?thesis
    by (simp add: create_subtitle_list_def chars for_loop_append)
next
  case (Inr s)
  note none = after_separator(1) [OF Inr pre]
  have before: "create_subtitle_list (a\<lparr>characters := pre\<rparr>) = Inr (subtitles s)"
    by (simp add: create_subtitle_list_def Inr last_word_untimed [OF none])
  let ?s' = "s\<lparr>start_time :=
                (if length pre < length (character_start_times_seconds a)
                 then Some (character_start_times_seconds a ! length pre) else None),
              words := words s @ w\<rparr>"
  have loop: "for_loop a 0 (characters a) initial = Inr ?s'"
    by (simp add: chars for_loop_append Inr for_loop_run [OF w(2)] none w(1))
  have idx: "last_index (pre @ w) = Some (length pre + length w - 1)"
    by (simp add: last_index_def w(1))
  have last_in_range:
    "length pre + length w - Suc 0 < length (character_end_times_seconds a)
     \<longleftrightarrow> length pre + length w \<le> length (character_end_times_seconds a)"
    using w(1) by (cases w) auto
  show ?thesis
  proof (cases "length pre < length (character_start_times_seconds a)")
    case True
    then have "words s = []"
      using after_separator(2) [OF Inr pre] by simp
    with True w(1) show ?thesis
      unfolding create_subtitle_list_def [of a] loop before
      by (simp add: idx last_word_def append_if_valid_append [of "subtitles s"] chars
            last_in_range)
  next
    case False
    then show ?thesis
      unfolding create_subtitle_list_def [of a] loop before
      by (simp add: last_word_def)
  qed
qed

lemma length_append_if_valid_Nil: "length (append_if_valid [] ws st et) \<le> 1"
  by (simp add: append_if_valid_def Let_def)

lemma text_append_if_valid_Nil: "e \<in> set (append_if_valid [] ws st et) \<Longrightarrow> fst e = ws"
  by (auto simp: append_if_valid_def Let_def split: if_splits)

lemma spec_entry_eq:
  "spec_entry a (j, w) =
     append_if_valid [] w (character_start_times_seconds a ! j)
       (if j + length w < length (characters a)
        then character_start_times_seconds a ! (j + length w)
        else character_end_times_seconds a ! (length (characters a) - 1))"
  by (simp add: spec_entry_def append_if_valid_def Let_def)

lemma dropWhile_not_space_cases:
  obtains (nil) "dropWhile (\<lambda>x. x \<noteq> ascii_space) cs = []"
  | (space) rest where "dropWhile (\<lambda>x. x \<noteq> ascii_space) cs = ascii_space # rest"
proof (cases "dropWhile (\<lambda>x. x \<noteq> ascii_space) cs")
  case Nil
  then show ?thesis by (rule nil)
next
  case (Cons x rest)
  then have "x = ascii_space"
    using hd_dropWhile [of "\<lambda>x. x \<noteq> ascii_space" cs] by simp
  with Cons show ?thesis by (simp add: space)
qed

lemma refines_from:
  fixes a :: "'t::{minus,zero,ord} alignment"
  assumes "i + length cs = length (characters a)"
    and "length (characters a) \<le> length (character_start_times_seconds a)"
    and "length (characters a) \<le> length (character_end_times_seconds a)"
    and "words s = []" and "start_time s = None"
  shows "(case for_loop a i cs s of
            Inl e \<Rightarrow> Inl e
          | Inr s' \<Rightarrow> last_word a (last_index (characters a)) s')
         = Inr (subtitles s @ concat (map (spec_entry a) (spec_words i cs)))"
  using assms
proof (induction i cs arbitrary: s rule: spec_words.induct)
  case (1 i)
  then show ?case by (simp add: last_word_def)
next
  case (2 i c cs)
  let ?tw = "takeWhile (\<lambda>x. x \<noteq> ascii_space) cs"
  let ?dw = "dropWhile (\<lambda>x. x \<noteq> ascii_space) cs"
  show ?case
  proof (cases "c = ascii_space")
    case True
    with "2.prems" have "loop_body a i c s = Inr s"
      by (simp add: loop_body_space)
    moreover from "2.prems" have "Suc i + length cs = length (characters a)"
      by simp
    ultimately show ?thesis
      using "2.IH"(1) [OF True _ "2.prems"(2-5)] True by simp
  next
    case False
    let ?w = "c # ?tw"
    let ?k = "i + length ?w"
    let ?st = "character_start_times_seconds a ! i"
    let ?s1 = "s\<lparr>start_time := Some ?st, words := ?w\<rparr>"
    have split: "c # cs = ?w @ ?dw" by simp
    have no_space: "ascii_space \<notin> set ?w"
      using False by (auto dest: set_takeWhileD)
    have len: "length ?tw + length ?dw = length cs"
      by (metis length_append takeWhile_dropWhile_id)
    with "2.prems"(1) have n: "?k + length ?dw = length (characters a)"
      by simp
    with "2.prems"(2) have i_lt: "i < length (character_start_times_seconds a)"
      by simp
    have run: "for_loop a i ?w s = Inr ?s1"
      using for_loop_run [OF no_space, of a i s] "2.prems"(4,5) i_lt
      by (simp del: for_loop.simps)
    have words: "spec_words i (c # cs) = (i, ?w) # spec_words (i + length ?tw + 2) (drop 1 ?dw)"
      using False by simp
    show ?thesis
    proof (cases rule: dropWhile_not_space_cases [of cs])
      case nil
      with n have k: "?k = length (characters a)" by simp
      then have idx: "last_index (characters a) = Some (length (characters a) - 1)"
        by (auto simp: last_index_def)
      from k "2.prems"(3) have "length (characters a) - 1 < length (character_end_times_seconds a)"
        by simp
      then have "last_word a (last_index (characters a)) ?s1 =
          Inr (subtitles s @ spec_entry a (i, ?w))"
        using k by (simp add: idx last_word_def spec_entry_eq
            append_if_valid_append [of "subtitles s"])
      moreover have "for_loop a i (c # cs) s = Inr ?s1"
      proof -
        from nil have "c # cs = ?w"
          by (metis append_Nil2 split)
        with run show ?thesis by (simp only:)
      qed
      ultimately show ?thesis
        by (simp only: words nil) simp
    next
      case (space rest)
      let ?s2 = "s\<lparr>subtitles := subtitles s @ spec_entry a (i, ?w),
                    words := [], start_time := None\<rparr>"
      from n space have k_lt: "?k < length (characters a)" by simp
      with "2.prems"(2) have k_in: "?k < length (character_start_times_seconds a)" by simp
      have close: "loop_body a ?k ascii_space ?s1 = Inr ?s2"
        using k_in k_lt
        by (simp add: loop_body_space spec_entry_eq append_if_valid_append [of "subtitles s"])
      have "for_loop a i (c # cs) s = for_loop a i (?w @ ?dw) s"
        by (simp only: split [symmetric])
      also have "\<dots> = for_loop a ?k ?dw ?s1"
        by (simp only: for_loop_append run sum.case)
      also have "\<dots> = for_loop a (Suc ?k) rest ?s2"
        by (simp only: space for_loop.simps(2) close sum.case)
      finally have "for_loop a i (c # cs) s = for_loop a (Suc ?k) rest ?s2" .
      moreover have "Suc ?k + length rest = length (characters a)"
        using n space by simp
      then have "(case for_loop a (Suc ?k) rest ?s2 of
            Inl e \<Rightarrow> Inl e
          | Inr s' \<Rightarrow> last_word a (last_index (characters a)) s')
         = Inr (subtitles ?s2 @ concat (map (spec_entry a) (spec_words (Suc ?k) rest)))"
        using "2.IH"(2) [OF False, of ?s2] "2.prems"(2,3) space by simp
      ultimately show ?thesis
        by (simp only: words space) simp
    qed
  qed
qed

lemma refines:
  fixes a :: "'t::{minus,zero,ord} alignment"
  assumes "length (characters a) \<le> length (character_start_times_seconds a)"
    and "length (characters a) \<le> length (character_end_times_seconds a)"
  shows "create_subtitle_list a = Inr (spec_subtitles a)"
  using refines_from [of 0 "characters a" a initial] assms
  by (simp add: create_subtitle_list_def spec_subtitles_def initial_def)

text \<open>Every word of \<open>spec_words\<close> is a maximal run without a space.\<close>

lemma spec_words_maximal_run:
  assumes "(j, w) \<in> set (spec_words i cs)"
  shows "\<exists>pre post. cs = pre @ w @ post \<and> j = i + length pre
           \<and> w \<noteq> [] \<and> ascii_space \<notin> set w
           \<and> (pre = [] \<or> last pre = ascii_space)
           \<and> (post = [] \<or> hd post = ascii_space)"
  using assms
proof (induction i cs rule: spec_words.induct)
  case (1 i)
  then show ?case by simp
next
  case (2 i c cs)
  let ?tw = "takeWhile (\<lambda>x. x \<noteq> ascii_space) cs"
  let ?dw = "dropWhile (\<lambda>x. x \<noteq> ascii_space) cs"
  show ?case
  proof (cases "c = ascii_space")
    case True
    with "2.prems" have "(j, w) \<in> set (spec_words (Suc i) cs)" by simp
    from "2.IH"(1) [OF True this] obtain pre post where
      "cs = pre @ w @ post" "j = Suc i + length pre" "w \<noteq> []" "ascii_space \<notin> set w"
      "pre = [] \<or> last pre = ascii_space" "post = [] \<or> hd post = ascii_space"
      by blast
    with True have "c # cs = (c # pre) @ w @ post \<and> j = i + length (c # pre)
        \<and> w \<noteq> [] \<and> ascii_space \<notin> set w
        \<and> (c # pre = [] \<or> last (c # pre) = ascii_space)
        \<and> (post = [] \<or> hd post = ascii_space)"
      by auto
    then show ?thesis by blast
  next
    case False
    from False "2.prems" consider
      (first) "j = i" "w = c # ?tw"
      | (later) "(j, w) \<in> set (spec_words (i + length ?tw + 2) (drop 1 ?dw))"
      by auto
    then show ?thesis
    proof cases
      case first
      have "c # cs = [] @ (c # ?tw) @ ?dw" by simp
      moreover have "ascii_space \<notin> set (c # ?tw)"
        using False by (auto dest: set_takeWhileD)
      moreover have "?dw = [] \<or> hd ?dw = ascii_space"
        using hd_dropWhile [of "\<lambda>x. x \<noteq> ascii_space" cs] by auto
      ultimately show ?thesis
        using first by (metis add.right_neutral list.distinct(1) list.size(3))
    next
      case later
      from "2.IH"(2) [OF False later] obtain pre post where
        d: "drop 1 ?dw = pre @ w @ post" and j: "j = i + length ?tw + 2 + length pre"
        and w: "w \<noteq> []" "ascii_space \<notin> set w"
        and pre: "pre = [] \<or> last pre = ascii_space"
        and post: "post = [] \<or> hd post = ascii_space"
        by blast
      from d w(1) obtain rest where dw: "?dw = ascii_space # rest"
        by (cases rule: dropWhile_not_space_cases [of cs]) auto
      with d have rest: "rest = pre @ w @ post" by simp
      let ?pre = "c # ?tw @ ascii_space # pre"
      have "c # cs = ?pre @ w @ post"
        using dw rest by (metis append.assoc append_Cons takeWhile_dropWhile_id)
      moreover have "j = i + length ?pre" using j by simp
      moreover have "last ?pre = ascii_space" using pre by auto
      ultimately show ?thesis using w post by blast
    qed
  qed
qed

lemma append_if_valid_Nil:
  "append_if_valid [] w st et =
     (if 0 < et - st \<and> py_strip w \<noteq> [] then [(w, st, et - st)] else [])"
  by (simp add: append_if_valid_def Let_def)

lemma create_subtitle_list_no_characters:
  "create_subtitle_list (a\<lparr>characters := []\<rparr>) = Inr []"
  by (simp add: create_subtitle_list_def initial_def last_word_def)

lemma for_loop_in_range:
  "i + length cs \<le> length (character_start_times_seconds a) \<Longrightarrow>
   \<exists>s'. for_loop a i cs s = Inr s'"
proof (induction cs arbitrary: i s)
  case Nil
  then show ?case by simp
next
  case (Cons c cs)
  then have "i < length (character_start_times_seconds a)" by simp
  then have "\<exists>s1. loop_body a i c s = Inr s1"
    by (cases "c = ascii_space") (simp_all add: loop_body_space loop_body_char split: option.splits)
  then obtain s1 where "loop_body a i c s = Inr s1" ..
  with Cons.IH [of "Suc i" s1] Cons.prems show ?case by simp
qed

lemma spec_words_tab_inside:
  "spec_words 0 (characters tab_inside) = [(0, [97, 9, 98]), (4, [99])]"
  by (simp add: tab_inside_def)

lemma append_if_valid_non_positive:
  fixes st :: "'t::{minus,zero,order}"
  shows "et - st \<le> 0 \<Longrightarrow> append_if_valid subs w st et = subs"
  by (auto simp: append_if_valid_def Let_def dest: leD)

lemma before_last_word:
  assumes "length pre \<le> length (character_start_times_seconds a)"
    and "pre = [] \<or> last pre = ascii_space"
  shows "\<exists>s. for_loop a 0 pre initial = Inr s \<and> words s = [] \<and> start_time s = None
           \<and> create_subtitle_list (a\<lparr>characters := pre\<rparr>) = Inr (subtitles s)"
proof -
  from for_loop_in_range [of 0 pre a initial] assms(1)
  obtain s where s: "for_loop a 0 pre initial = Inr s" by auto
  note none = after_separator(1) [OF s assms(2)]
  moreover have "words s = []"
    by (rule after_separator(2) [OF s assms(2) assms(1)])
  moreover have "create_subtitle_list (a\<lparr>characters := pre\<rparr>) = Inr (subtitles s)"
    by (simp add: create_subtitle_list_def s last_word_untimed [OF none])
  ultimately show ?thesis using s by blast
qed

section \<open>Order of the entries\<close>

lemma prefix_append_if_valid: "prefix subs (append_if_valid subs w st et)"
  by (simp add: append_if_valid_def Let_def)

lemma loop_body_prefix:
  "loop_body a i c s = Inr s' \<Longrightarrow> prefix (subtitles s) (subtitles s')"
  by (erule loop_body_cases) (simp_all add: prefix_append_if_valid)

lemma for_loop_prefix:
  "for_loop a i cs s = Inr s' \<Longrightarrow> prefix (subtitles s) (subtitles s')"
proof (induction cs arbitrary: i s)
  case Nil
  then show ?case by simp
next
  case (Cons c cs)
  from Cons.prems obtain s1 where
    s1: "loop_body a i c s = Inr s1" and rest: "for_loop a (Suc i) cs s1 = Inr s'"
    by (auto split: sum.splits)
  from loop_body_prefix [OF s1] Cons.IH [OF rest] show ?case
    by (rule prefix_order.trans)
qed

lemma last_word_prefix: "last_word a i s = Inr es \<Longrightarrow> prefix (subtitles s) es"
  by (erule last_word_cases) (simp_all add: prefix_append_if_valid)

lemma sorted_nth_le_later:
  fixes xs :: "'t::linorder list"
  assumes "sorted xs" and "i < length xs" and "x \<in> set (drop (Suc i) xs)"
  shows "xs ! i \<le> x"
proof -
  from assms(3) obtain j where "j < length (drop (Suc i) xs)" and "x = drop (Suc i) xs ! j"
    by (auto simp: in_set_conv_nth)
  then have "x = xs ! (Suc i + j)" and "Suc i + j < length xs"
    by simp_all
  with assms(1) show ?thesis
    by (simp add: sorted_nth_mono)
qed

lemma set_drop_Suc_subset: "x \<in> set (drop (Suc i) xs) \<Longrightarrow> x \<in> set (drop i xs)"
  by (metis Suc_n_not_le_n nat_le_linear set_drop_subset_set_drop subsetD)

lemma sorted_inv_append:
  fixes a :: "'t::{minus,zero,linorder} alignment"
  assumes "sorted_inv a i s" and "start_time s = Some st"
  shows "sorted (map entry_start (append_if_valid (subtitles s) w st et))"
    and "\<forall>e\<in>set (append_if_valid (subtitles s) w st et).
           \<forall>x\<in>set (drop i (character_start_times_seconds a)). entry_start e \<le> x"
  using assms
  by (auto simp: sorted_inv_def append_if_valid_def Let_def sorted_append entry_start_def)

lemma loop_body_sorted_inv:
  fixes a :: "'t::{minus,zero,linorder} alignment"
  assumes "loop_body a i c s = Inr s'" and "sorted (character_start_times_seconds a)"
    and inv: "sorted_inv a i s"
  shows "sorted_inv a (Suc i) s'"
  using assms(1)
proof (cases rule: loop_body_cases)
  case skip
  with inv show ?thesis
    by (auto simp: sorted_inv_def dest: set_drop_Suc_subset)
next
  case (close st)
  with sorted_inv_append [OF inv close(3)] show ?thesis
    by (auto simp: sorted_inv_def dest: set_drop_Suc_subset)
next
  case grow
  show ?thesis
  proof (cases "start_time s = None \<and> i < length (character_start_times_seconds a)")
    case True
    then have "character_start_times_seconds a ! i \<in> set (drop i (character_start_times_seconds a))"
      by (metis Cons_nth_drop_Suc list.set_intros(1))
    with inv grow True assms(2) show ?thesis
      by (auto simp: sorted_inv_def dest: set_drop_Suc_subset sorted_nth_le_later)
  next
    case False
    with inv grow show ?thesis
      by (auto simp: sorted_inv_def dest: set_drop_Suc_subset)
  qed
qed

lemma for_loop_sorted_inv:
  fixes a :: "'t::{minus,zero,linorder} alignment"
  shows "for_loop a i cs s = Inr s' \<Longrightarrow> sorted (character_start_times_seconds a) \<Longrightarrow>
    sorted_inv a i s \<Longrightarrow> sorted_inv a (i + length cs) s'"
proof (induction cs arbitrary: i s)
  case Nil
  then show ?case by simp
next
  case (Cons c cs)
  from Cons.prems(1) obtain s1 where
    s1: "loop_body a i c s = Inr s1" and rest: "for_loop a (Suc i) cs s1 = Inr s'"
    by (auto split: sum.splits)
  from Cons.IH [OF rest Cons.prems(2) loop_body_sorted_inv [OF s1 Cons.prems(2,3)]]
  show ?case by simp
qed

section \<open>What can be raised\<close>

lemma loop_body_raises: "loop_body a i c s = Inl e \<Longrightarrow> e = IndexError"
  by (cases "c = ascii_space")
    (auto simp: loop_body_space loop_body_char split: if_splits option.splits)

lemma for_loop_raises: "for_loop a i cs s = Inl e \<Longrightarrow> e = IndexError"
proof (induction cs arbitrary: i s)
  case Nil
  then show ?case by simp
next
  case (Cons c cs)
  then show ?case
    by (auto split: sum.splits dest: loop_body_raises)
qed

text \<open>
  The only exception is the IndexError of line 95: the unbound \<^verbatim>\<open>i\<close> is never
  read, since a buffer that is not empty means the loop body has run.
\<close>

lemma create_subtitle_list_raises:
  assumes "create_subtitle_list a = Inl e"
  shows "e = IndexError"
proof (cases "for_loop a 0 (characters a) initial")
  case (Inl e')
  with assms show ?thesis
    by (auto simp: create_subtitle_list_def dest: for_loop_raises)
next
  case (Inr s)
  show ?thesis
  proof (cases "characters a = []")
    case True
    with assms show ?thesis
      by (simp add: create_subtitle_list_def initial_def last_word_def)
  next
    case False
    with assms Inr show ?thesis
      by (auto simp: create_subtitle_list_def last_word_def last_index_def
          split: if_splits option.splits)
  qed
qed

text \<open>With a start time for every character nothing is raised.\<close>

lemma create_subtitle_list_returns:
  assumes "length (characters a) \<le> length (character_start_times_seconds a)"
  shows "\<exists>es. create_subtitle_list a = Inr es"
proof -
  from for_loop_in_range [of 0 "characters a" a initial] assms
  obtain s where s: "for_loop a 0 (characters a) initial = Inr s" by auto
  show ?thesis
  proof (cases "create_subtitle_list a")
    case (Inl e)
    then have "e = IndexError" by (rule create_subtitle_list_raises)
    with Inl s show ?thesis
      by (auto simp: create_subtitle_list_def last_word_def split: if_splits option.splits)
  next
    case (Inr es)
    then show ?thesis by blast
  qed
qed

section \<open>Results\<close>

text \<open>
  C7. When the character sequence is empty, \<^verbatim>\<open>create_subtitle_list\<close> returns the
  empty list and raises nothing, whatever the timing sequences hold.
\<close>

theorem empty_characters_empty_result:
  "create_subtitle_list \<lparr>characters = [], character_start_times_seconds = ss,
      character_end_times_seconds = es\<rparr> = Inr []"
  by (simp add: create_subtitle_list_def initial_def last_word_def)

text \<open>
  C1. Not every lookup is guarded. Two of the three timing lookups sit under
  \<^verbatim>\<open>i < len(...)\<close>; the one that closes a word at a space (line 95) does not.
  With the characters \<^verbatim>\<open>"a", " "\<close> and a single start time, the space at index 1
  reads \<^verbatim>\<open>character_start_times_seconds[1]\<close> and the function raises IndexError
  instead of dropping the word.
\<close>

theorem unguarded_lookup_raises:
  "create_subtitle_list
     \<lparr>characters = [97, ascii_space], character_start_times_seconds = [0::real],
      character_end_times_seconds = [1]\<rparr> = Inl IndexError"
  by (simp add: create_subtitle_list_def initial_def loop_body_def py_isspace_def py_index_def)

text \<open>
  C2. Every entry \<^verbatim>\<open>(text, start_time, duration)\<close> that \<^verbatim>\<open>create_subtitle_list\<close>
  returns has \<open>duration > 0\<close> and a text that is not empty after stripping
  whitespace, for every alignment and every comparison and subtraction on times.
\<close>

theorem entries_valid:
  assumes "create_subtitle_list a = Inr es" and "(text, st, duration) \<in> set es"
  shows "0 < duration \<and> py_strip text \<noteq> []"
proof -
  from assms(1) obtain s where
    loop: "for_loop a 0 (characters a) initial = Inr s" and
    fin: "last_word a (last_index (characters a)) s = Inr es"
    by (rule create_subtitle_list_InrD)
  have "\<forall>e\<in>set (subtitles s). valid_entry e"
    by (rule for_loop_valid [OF loop]) (simp add: initial_def)
  with fin have "\<forall>e\<in>set es. valid_entry e"
    by (cases rule: last_word_cases) (auto simp: valid_entry_def dest!: append_if_valid_new)
  with assms(2) show ?thesis
    by (auto simp: valid_entry_def)
qed

theorem entries_valid_witness:
  "create_subtitle_list hi_there =
     Inr [([104, 105], 0, 0.2), ([116, 104, 101, 114, 101], 0.3, 0.5)]
   \<and> ([104, 105], 0, 0.2) \<in> set [([104, 105], 0, 0.2), ([116, 104, 101, 114, 101], 0.3, 0.5 :: real)]
   \<and> (0::real) < 0.2 \<and> py_strip [104, 105] \<noteq> []"
proof -
  have "([104, 105], 0, 0.2) \<in> set [([104, 105], 0, 0.2), ([116, 104, 101, 114, 101], 0.3, 0.5 :: real)]"
    by simp
  from entries_valid [OF hi_there_result this] hi_there_result show ?thesis
    by simp
qed

text \<open>
  C10. For every alignment: the text of every returned entry contains no ASCII space
  and is a contiguous run of the input characters; and the word buffer never holds a
  space, after any part of the scan, whether or not the function later returns an
  entry, returns none or raises.
\<close>

theorem entry_text_is_run_without_space:
  fixes a :: "'t::{minus,zero,ord} alignment"
  shows "(\<forall>es text st duration.
            create_subtitle_list a = Inr es \<and> (text, st, duration) \<in> set es
            \<longrightarrow> ascii_space \<notin> set text \<and> sublist text (characters a))
         \<and> (\<forall>xs s. for_loop a 0 xs initial = Inr s \<longrightarrow> ascii_space \<notin> set (words s))"
proof -
  have entries: "ascii_space \<notin> set tx \<and> sublist tx (characters a)"
    if h: "create_subtitle_list a = Inr es \<and> (tx, st, duration) \<in> set es"
    for es tx st duration
  proof -
    from h obtain s where
    loop: "for_loop a 0 (characters a) initial = Inr s" and
    fin: "last_word a (last_index (characters a)) s = Inr es"
    by (auto elim: create_subtitle_list_InrD)
  from loop have "for_loop a (length ([]::codepoint list)) (characters a) initial = Inr s"
    by simp
  then have "run_inv ([] @ characters a) s"
    by (rule for_loop_run_inv) (simp_all add: wf_locals_def run_inv_def initial_def)
  then have inv: "run_inv (characters a) s" by simp
  from fin have "\<forall>e\<in>set es. ascii_space \<notin> set (fst e) \<and> sublist (fst e) (characters a)"
  proof (cases rule: last_word_cases)
    case none
    with inv show ?thesis by (simp add: run_inv_def)
  next
    case (flush st j)
    with inv show ?thesis
      by (auto simp: run_inv_def dest!: append_if_valid_new)
  qed
  with h show ?thesis
    by fastforce
  qed
  have buffer: "ascii_space \<notin> set (words s)"
    if "for_loop a 0 xs initial = Inr s" for xs and s :: "'t locals"
    using that by (rule for_loop_no_space_in_words) (simp add: initial_def)
  from entries buffer show ?thesis by blast
qed

theorem entry_text_is_run_without_space_witness:
  "create_subtitle_list hi_there =
     Inr [([104, 105], 0, 0.2), ([116, 104, 101, 114, 101], 0.3, 0.5)]
   \<and> ([116, 104, 101, 114, 101], 0.3, 0.5)
       \<in> set [([104, 105], 0, 0.2), ([116, 104, 101, 114, 101], 0.3, 0.5 :: real)]
   \<and> ascii_space \<notin> set [116, 104, 101, 114, 101 :: codepoint]
   \<and> sublist [116, 104, 101, 114, 101] (characters hi_there)
   \<and> create_subtitle_list
        \<lparr>characters = [97, ascii_space], character_start_times_seconds = [0::real],
         character_end_times_seconds = [1]\<rparr> = Inl IndexError
   \<and> for_loop
        \<lparr>characters = [97, ascii_space], character_start_times_seconds = [0::real],
         character_end_times_seconds = [1]\<rparr> 0 [97] initial
       = Inr \<lparr>subtitles = [], words = [97], start_time = Some 0\<rparr>
   \<and> ascii_space \<notin> set (words \<lparr>subtitles = [], words = [97], start_time = Some (0::real)\<rparr>)"
proof -
  let ?raising = "\<lparr>characters = [97, ascii_space], character_start_times_seconds = [0::real],
         character_end_times_seconds = [1]\<rparr>"
  have mem: "([116, 104, 101, 114, 101], 0.3, 0.5)
       \<in> set [([104, 105], 0, 0.2), ([116, 104, 101, 114, 101], 0.3, 0.5 :: real)]"
    by simp
  have raises: "create_subtitle_list ?raising = Inl IndexError"
    by (simp add: eval_defs)
  have loop: "for_loop ?raising 0 [97] initial
       = Inr \<lparr>subtitles = [], words = [97], start_time = Some 0\<rparr>"
    by (simp add: loop_body_def initial_def py_isspace_def)
  from entry_text_is_run_without_space [of hi_there] hi_there_result mem
  have "ascii_space \<notin> set [116, 104, 101, 114, 101 :: codepoint]
      \<and> sublist [116, 104, 101, 114, 101] (characters hi_there)"
    by blast
  moreover from entry_text_is_run_without_space [of ?raising] loop
  have "ascii_space \<notin> set (words \<lparr>subtitles = [], words = [97], start_time = Some (0::real)\<rparr>)"
    by blast
  ultimately show ?thesis
    using hi_there_result mem raises loop by blast
qed

text \<open>
  C3. A word is a maximal run of characters other than the ASCII space, and only that
  character separates words. With timing for every character, the function returns
  exactly the entries of the maximal runs \<open>spec_words\<close> lists, in order; each of them
  is bounded by a space or an end of the input on either side; and any other
  character, a tab or a newline included, only joins the buffer and leaves the
  entries as they are.
\<close>

theorem words_split_only_at_ascii_space:
  fixes a :: "'t::{minus,zero,ord} alignment"
  shows
    "(length (characters a) \<le> length (character_start_times_seconds a)
        \<and> length (characters a) \<le> length (character_end_times_seconds a)
      \<longrightarrow> create_subtitle_list a
            = Inr (concat (map (spec_entry a) (spec_words 0 (characters a)))))
     \<and> (\<forall>j w. (j, w) \<in> set (spec_words 0 (characters a)) \<longrightarrow>
           (\<exists>pre post. characters a = pre @ w @ post \<and> j = length pre
              \<and> w \<noteq> [] \<and> ascii_space \<notin> set w
              \<and> (pre = [] \<or> last pre = ascii_space)
              \<and> (post = [] \<or> hd post = ascii_space)))
     \<and> (c \<noteq> ascii_space \<longrightarrow>
           (\<exists>s'. loop_body a i c s = Inr s' \<and> subtitles s' = subtitles s
              \<and> words s' = words s @ [c]))"
proof (intro conjI impI allI)
  assume "length (characters a) \<le> length (character_start_times_seconds a)
        \<and> length (characters a) \<le> length (character_end_times_seconds a)"
  then show "create_subtitle_list a
      = Inr (concat (map (spec_entry a) (spec_words 0 (characters a))))"
    using refines [of a] by (simp add: spec_subtitles_def)
next
  fix j w
  assume "(j, w) \<in> set (spec_words 0 (characters a))"
  from spec_words_maximal_run [OF this]
  show "\<exists>pre post. characters a = pre @ w @ post \<and> j = length pre
              \<and> w \<noteq> [] \<and> ascii_space \<notin> set w
              \<and> (pre = [] \<or> last pre = ascii_space)
              \<and> (post = [] \<or> hd post = ascii_space)"
    by simp
next
  assume "c \<noteq> ascii_space"
  then show "\<exists>s'. loop_body a i c s = Inr s' \<and> subtitles s' = subtitles s
      \<and> words s' = words s @ [c]"
    by (simp add: loop_body_char)
qed

theorem words_split_only_at_ascii_space_witness:
  "create_subtitle_list tab_inside = Inr [([97, 9, 98], 0, 3), ([99], 4, 1)]
   \<and> spec_words 0 (characters tab_inside) = [(0, [97, 9, 98]), (4, [99])]
   \<and> characters tab_inside = [] @ [97, 9, 98] @ [ascii_space, 99]
   \<and> loop_body tab_inside 1 9 \<lparr>subtitles = [], words = [97], start_time = Some 0\<rparr>
       = Inr \<lparr>subtitles = [], words = [97, 9], start_time = Some 0\<rparr>"
proof -
  note split_rule = words_split_only_at_ascii_space [of tab_inside 9 1
      "\<lparr>subtitles = [], words = [97], start_time = Some 0\<rparr>"]
  have "length (characters tab_inside) \<le> length (character_start_times_seconds tab_inside)
      \<and> length (characters tab_inside) \<le> length (character_end_times_seconds tab_inside)"
    by (simp add: tab_inside_def)
  with split_rule have "create_subtitle_list tab_inside
      = Inr (concat (map (spec_entry tab_inside) (spec_words 0 (characters tab_inside))))"
    by blast
  then have "create_subtitle_list tab_inside = Inr [([97, 9, 98], 0, 3), ([99], 4, 1)]"
    by (simp add: spec_words_tab_inside spec_entry_def py_strip_def py_isspace_def)
      (simp add: tab_inside_def)
  moreover have "loop_body tab_inside 1 9 \<lparr>subtitles = [], words = [97], start_time = Some 0\<rparr>
       = Inr \<lparr>subtitles = [], words = [97, 9], start_time = Some 0\<rparr>"
    by (simp add: loop_body_def py_isspace_def)
  ultimately show ?thesis
    by (simp add: spec_words_tab_inside) (simp add: tab_inside_def)
qed

text \<open>
  C4. When the characters end with a run \<open>w\<close> without a space, the result is the
  result for the characters before the run followed by at most one entry for \<open>w\<close>:
  the entry is there exactly when the run's first index has a start time, the last
  index has an end time, the duration to the end of the last character is positive
  and the text is not blank. So an input without any space gives at most one entry,
  whose text is the whole input.
\<close>

theorem trailing_word_flushed_once:
  fixes a :: "'t::{minus,zero,ord} alignment"
  shows
    "(characters a = pre @ w \<and> w \<noteq> [] \<and> ascii_space \<notin> set w
        \<and> (pre = [] \<or> last pre = ascii_space)
      \<longrightarrow> create_subtitle_list a =
           (case create_subtitle_list (a\<lparr>characters := pre\<rparr>) of
              Inl e \<Rightarrow> Inl e
            | Inr es \<Rightarrow>
                Inr (es @
                  (if length pre < length (character_start_times_seconds a)
                      \<and> length (characters a) \<le> length (character_end_times_seconds a)
                      \<and> 0 < character_end_times_seconds a ! (length (characters a) - 1)
                              - character_start_times_seconds a ! length pre
                      \<and> py_strip w \<noteq> []
                   then [(w, character_start_times_seconds a ! length pre,
                          character_end_times_seconds a ! (length (characters a) - 1)
                            - character_start_times_seconds a ! length pre)]
                   else []))))
     \<and> (ascii_space \<notin> set (characters a)
      \<longrightarrow> (\<exists>es. create_subtitle_list a = Inr es \<and> length es \<le> 1
              \<and> (\<forall>e\<in>set es. fst e = characters a)))"
proof (intro conjI impI)
  assume "characters a = pre @ w \<and> w \<noteq> [] \<and> ascii_space \<notin> set w
        \<and> (pre = [] \<or> last pre = ascii_space)"
  then have "create_subtitle_list a =
     (case create_subtitle_list (a\<lparr>characters := pre\<rparr>) of
        Inl e \<Rightarrow> Inl e
      | Inr es \<Rightarrow>
          Inr (es @
            (if length pre < length (character_start_times_seconds a)
                \<and> length (characters a) \<le> length (character_end_times_seconds a)
             then append_if_valid [] w (character_start_times_seconds a ! length pre)
                    (character_end_times_seconds a ! (length (characters a) - 1))
             else [])))"
    by (intro trailing_word) simp_all
  moreover have
    "(if length pre < length (character_start_times_seconds a)
         \<and> length (characters a) \<le> length (character_end_times_seconds a)
      then append_if_valid [] w (character_start_times_seconds a ! length pre)
             (character_end_times_seconds a ! (length (characters a) - 1))
      else [])
     = (if length pre < length (character_start_times_seconds a)
           \<and> length (characters a) \<le> length (character_end_times_seconds a)
           \<and> 0 < character_end_times_seconds a ! (length (characters a) - 1)
                   - character_start_times_seconds a ! length pre
           \<and> py_strip w \<noteq> []
        then [(w, character_start_times_seconds a ! length pre,
               character_end_times_seconds a ! (length (characters a) - 1)
                 - character_start_times_seconds a ! length pre)]
        else [])"
    by (simp add: append_if_valid_Nil)
  ultimately show "create_subtitle_list a =
           (case create_subtitle_list (a\<lparr>characters := pre\<rparr>) of
              Inl e \<Rightarrow> Inl e
            | Inr es \<Rightarrow>
                Inr (es @
                  (if length pre < length (character_start_times_seconds a)
                      \<and> length (characters a) \<le> length (character_end_times_seconds a)
                      \<and> 0 < character_end_times_seconds a ! (length (characters a) - 1)
                              - character_start_times_seconds a ! length pre
                      \<and> py_strip w \<noteq> []
                   then [(w, character_start_times_seconds a ! length pre,
                          character_end_times_seconds a ! (length (characters a) - 1)
                            - character_start_times_seconds a ! length pre)]
                   else [])))"
    by (simp only:)
next
  assume no_space: "ascii_space \<notin> set (characters a)"
  show "\<exists>es. create_subtitle_list a = Inr es \<and> length es \<le> 1
      \<and> (\<forall>e\<in>set es. fst e = characters a)"
  proof (cases "characters a = []")
    case True
    then show ?thesis
      by (simp add: create_subtitle_list_def initial_def last_word_def)
  next
    case False
    with no_space trailing_word [of a "[]" "characters a"] show ?thesis
      by (auto simp: create_subtitle_list_no_characters append_if_valid_Nil)
  qed
qed

theorem trailing_word_flushed_once_witness:
  "characters hi_there = [104, 105, ascii_space] @ [116, 104, 101, 114, 101]
   \<and> create_subtitle_list (hi_there\<lparr>characters := [104, 105, ascii_space]\<rparr>)
       = Inr [([104, 105], 0, 0.2)]
   \<and> create_subtitle_list hi_there
       = Inr [([104, 105], 0, 0.2), ([116, 104, 101, 114, 101], 0.3, 0.5)]
   \<and> create_subtitle_list (hi_there\<lparr>characters := [104, 105]\<rparr>) = Inr [([104, 105], 0, 0.2)]"
proof -
  have pre: "create_subtitle_list (hi_there\<lparr>characters := [104, 105, ascii_space]\<rparr>)
       = Inr [([104, 105], 0, 0.2)]"
    by (simp add: hi_there_def eval_defs)
  have "characters hi_there = [104, 105, ascii_space] @ [116, 104, 101, 114, 101]
      \<and> [116, 104, 101, 114, 101] \<noteq> [] \<and> ascii_space \<notin> set [116, 104, 101, 114, 101 :: codepoint]
      \<and> ([104, 105, ascii_space] = [] \<or> last [104, 105, ascii_space] = ascii_space)"
    by (simp add: hi_there_def)
  with trailing_word_flushed_once
    [of hi_there "[104, 105, ascii_space]" "[116, 104, 101, 114, 101]"]
  have "create_subtitle_list hi_there
       = Inr [([104, 105], 0, 0.2), ([116, 104, 101, 114, 101], 0.3, 0.5)]"
    unfolding pre by (simp add: hi_there_def py_strip_def py_isspace_def)
  moreover have "create_subtitle_list (hi_there\<lparr>characters := [104, 105]\<rparr>)
      = Inr [([104, 105], 0, 0.2)]"
    by (simp add: hi_there_def eval_defs)
  ultimately show ?thesis
    using pre by (simp add: hi_there_def)
qed

text \<open>
  C6. A word whose computed duration is zero or negative leaves no entry and raises
  nothing. Inside the input: scanning such a word and the space that closes it
  brings the loop back to the state it had before the word. At the end of the
  input: the result, without an error, is the result for the characters before the
  word. In particular \<^verbatim>\<open>"a", "b"\<close> with one time \<open>t\<close> for every start and end
  gives no entry. Times are taken in an ordered group here.
\<close>

theorem non_positive_duration_dropped:
  fixes a :: "'t::ordered_ab_group_add alignment" and t :: 't
  shows
    "(w \<noteq> [] \<and> ascii_space \<notin> set w \<and> (pre = [] \<or> last pre = ascii_space)
        \<and> length pre + length w < length (character_start_times_seconds a)
        \<and> character_start_times_seconds a ! (length pre + length w)
            - character_start_times_seconds a ! length pre \<le> 0
      \<longrightarrow> (\<exists>s. for_loop a 0 pre initial = Inr s
              \<and> for_loop a 0 (pre @ w @ [ascii_space]) initial = Inr s))
     \<and> (characters a = pre @ w \<and> w \<noteq> [] \<and> ascii_space \<notin> set w
        \<and> (pre = [] \<or> last pre = ascii_space)
        \<and> length pre < length (character_start_times_seconds a)
        \<and> length (characters a) \<le> length (character_end_times_seconds a)
        \<and> character_end_times_seconds a ! (length (characters a) - 1)
            - character_start_times_seconds a ! length pre \<le> 0
      \<longrightarrow> (\<exists>es. create_subtitle_list (a\<lparr>characters := pre\<rparr>) = Inr es
              \<and> create_subtitle_list a = Inr es))
     \<and> create_subtitle_list
          \<lparr>characters = [97, 98], character_start_times_seconds = [t, t],
           character_end_times_seconds = [t, t]\<rparr> = Inr []"
proof (intro conjI impI)
  assume h: "w \<noteq> [] \<and> ascii_space \<notin> set w \<and> (pre = [] \<or> last pre = ascii_space)
        \<and> length pre + length w < length (character_start_times_seconds a)
        \<and> character_start_times_seconds a ! (length pre + length w)
            - character_start_times_seconds a ! length pre \<le> 0"
  then have "length pre \<le> length (character_start_times_seconds a)"
    and "pre = [] \<or> last pre = ascii_space" by simp_all
  from before_last_word [OF this] obtain s where s: "for_loop a 0 pre initial = Inr s"
    and clean: "words s = []" "start_time s = None"
    by blast
  let ?st = "character_start_times_seconds a ! length pre"
  let ?s1 = "s\<lparr>start_time := Some ?st, words := w\<rparr>"
  from h have run: "for_loop a (length pre) w s = Inr ?s1"
    by (simp add: for_loop_run clean)
  from h have "append_if_valid (subtitles s) w ?st
      (character_start_times_seconds a ! (length pre + length w)) = subtitles s"
    by (intro append_if_valid_non_positive) blast
  with h have "loop_body a (length pre + length w) ascii_space ?s1
      = Inr (s\<lparr>subtitles := subtitles s, words := [], start_time := None\<rparr>)"
    by (simp add: loop_body_space)
  also have "s\<lparr>subtitles := subtitles s, words := [], start_time := None\<rparr> = s"
    using clean by simp
  finally have "for_loop a 0 (pre @ w @ [ascii_space]) initial = Inr s"
    by (simp add: for_loop_append s run)
  with s show "\<exists>s. for_loop a 0 pre initial = Inr s
      \<and> for_loop a 0 (pre @ w @ [ascii_space]) initial = Inr s"
    by blast
next
  assume h: "characters a = pre @ w \<and> w \<noteq> [] \<and> ascii_space \<notin> set w
        \<and> (pre = [] \<or> last pre = ascii_space)
        \<and> length pre < length (character_start_times_seconds a)
        \<and> length (characters a) \<le> length (character_end_times_seconds a)
        \<and> character_end_times_seconds a ! (length (characters a) - 1)
            - character_start_times_seconds a ! length pre \<le> 0"
  then have "length pre \<le> length (character_start_times_seconds a)"
    and "pre = [] \<or> last pre = ascii_space" by simp_all
  from before_last_word [OF this] obtain s :: "'t locals" where
    before: "create_subtitle_list (a\<lparr>characters := pre\<rparr>) = Inr (subtitles s)"
    by blast
  from h have "create_subtitle_list a =
     (case create_subtitle_list (a\<lparr>characters := pre\<rparr>) of
        Inl e \<Rightarrow> Inl e
      | Inr es \<Rightarrow>
          Inr (es @
            (if length pre < length (character_start_times_seconds a)
                \<and> length (characters a) \<le> length (character_end_times_seconds a)
             then append_if_valid [] w (character_start_times_seconds a ! length pre)
                    (character_end_times_seconds a ! (length (characters a) - 1))
             else [])))"
    by (intro trailing_word) simp_all
  moreover from h have "append_if_valid [] w (character_start_times_seconds a ! length pre)
      (character_end_times_seconds a ! (length (characters a) - 1)) = []"
    by (intro append_if_valid_non_positive) blast
  ultimately have "create_subtitle_list a = Inr (subtitles s)"
    by (simp only: before sum.case if_cancel append_Nil2)
  with before show "\<exists>es. create_subtitle_list (a\<lparr>characters := pre\<rparr>) = Inr es
      \<and> create_subtitle_list a = Inr es"
    by blast
next
  show "create_subtitle_list
          \<lparr>characters = [97, 98], character_start_times_seconds = [t, t],
           character_end_times_seconds = [t, t]\<rparr> = Inr []"
    by (simp add: eval_defs)
qed

theorem non_positive_duration_dropped_witness:
  "for_loop \<lparr>characters = [97, ascii_space], character_start_times_seconds = [1, 1 :: real],
       character_end_times_seconds = [1, 1]\<rparr> 0 ([] @ [97] @ [ascii_space]) initial
     = Inr initial
   \<and> create_subtitle_list
        \<lparr>characters = [97, ascii_space, 98], character_start_times_seconds = [0, 1, 2 :: real],
         character_end_times_seconds = [1, 2, 2]\<rparr> = Inr [([97], 0, 1)]
   \<and> create_subtitle_list
        \<lparr>characters = [97, 98], character_start_times_seconds = [1, 1 :: real],
         character_end_times_seconds = [1, 1]\<rparr> = Inr []"
proof -
  let ?a = "\<lparr>characters = [97, ascii_space], character_start_times_seconds = [1, 1 :: real],
       character_end_times_seconds = [1, 1]\<rparr>"
  let ?b = "\<lparr>characters = [97, ascii_space, 98], character_start_times_seconds = [0, 1, 2 :: real],
         character_end_times_seconds = [1, 2, 2]\<rparr>"
  from non_positive_duration_dropped [of "[97]" "[]" ?a 1]
  have mid: "\<exists>s. for_loop ?a 0 [] initial = Inr s
      \<and> for_loop ?a 0 ([] @ [97] @ [ascii_space]) initial = Inr s"
    by simp
  from non_positive_duration_dropped [of "[98]" "[97, ascii_space]" ?b 1]
  have "\<exists>es. create_subtitle_list (?b\<lparr>characters := [97, ascii_space]\<rparr>) = Inr es
      \<and> create_subtitle_list ?b = Inr es"
    by simp
  moreover have "create_subtitle_list (?b\<lparr>characters := [97, ascii_space]\<rparr>) = Inr [([97], 0, 1)]"
    by (simp add: eval_defs)
  ultimately have "create_subtitle_list ?b = Inr [([97], 0, 1)]"
    by auto
  moreover from mid have "for_loop ?a 0 ([] @ [97] @ [ascii_space]) initial = Inr initial"
    by auto
  moreover from non_positive_duration_dropped [of "[97]" "[]" ?a 1]
  have "create_subtitle_list
        \<lparr>characters = [97, 98], character_start_times_seconds = [1, 1 :: real],
         character_end_times_seconds = [1, 1]\<rparr> = Inr []"
    by blast
  ultimately show ?thesis by blast
qed

text \<open>
  C5. The start times of the entries are not in non-decreasing order for every
  input: the function never sorts, so start times that are out of order in the
  input come out in input order.
\<close>

theorem start_times_not_sorted_counterexample:
  "create_subtitle_list out_of_order = Inr [([97], 5, 1), ([98], 1, 1)]
   \<and> map (fst \<circ> snd) ([([97], 5, 1), ([98], 1, 1)] :: real entry list) = [5, 1]
   \<and> \<not> sorted [5, 1 :: real]"
  by (simp add: out_of_order_def eval_defs)

text \<open>
  C5, amended. Whenever the function returns, the entries are in the order the scan
  completed the words: after any prefix of the characters the entries so far are a
  prefix of the result. When the input's start times are in non-decreasing order,
  so are the start times of the entries.
\<close>

theorem entries_in_scan_order:
  fixes a :: "'t::{minus,zero,linorder} alignment"
  assumes "create_subtitle_list a = Inr es"
  shows "(\<forall>xs ys. characters a = xs @ ys \<longrightarrow>
            (\<exists>s. for_loop a 0 xs initial = Inr s \<and> prefix (subtitles s) es))
         \<and> (sorted (character_start_times_seconds a) \<longrightarrow>
              sorted (map (\<lambda>(text, st, duration). st) es))"
proof (intro conjI allI impI)
  from assms obtain sf where
    loop: "for_loop a 0 (characters a) initial = Inr sf" and
    fin: "last_word a (last_index (characters a)) sf = Inr es"
    by (rule create_subtitle_list_InrD)
  {
    fix xs ys
    assume "characters a = xs @ ys"
    with loop obtain s where s: "for_loop a 0 xs initial = Inr s"
      and rest: "for_loop a (length xs) ys s = Inr sf"
      by (auto simp: for_loop_append split: sum.splits)
    from for_loop_prefix [OF rest] last_word_prefix [OF fin]
    have "prefix (subtitles s) es" by (rule prefix_order.trans)
    with s show "\<exists>s. for_loop a 0 xs initial = Inr s \<and> prefix (subtitles s) es"
      by blast
  }
  {
    assume sorted: "sorted (character_start_times_seconds a)"
    have "sorted_inv a 0 initial"
      by (simp add: sorted_inv_def initial_def)
    from for_loop_sorted_inv [OF loop sorted this]
    have inv: "sorted_inv a (length (characters a)) sf" by simp
    from fin have "sorted (map entry_start es)"
    proof (cases rule: last_word_cases)
      case none
      with inv show ?thesis by (simp add: sorted_inv_def)
    next
      case (flush st j)
      with sorted_inv_append(1) [OF inv flush(2)] show ?thesis by simp
    qed
    moreover have "map entry_start es = map (\<lambda>(text, st, duration). st) es"
      by (simp add: entry_start_def)
    ultimately show "sorted (map (\<lambda>(text, st, duration). st) es)"
      by (simp only:)
  }
qed

theorem entries_in_scan_order_witness:
  "create_subtitle_list hi_there
     = Inr [([104, 105], 0, 0.2), ([116, 104, 101, 114, 101], 0.3, 0.5)]
   \<and> characters hi_there = [104, 105, ascii_space] @ [116, 104, 101, 114, 101]
   \<and> sorted (character_start_times_seconds hi_there)
   \<and> sorted (map (\<lambda>(text, st, duration). st)
        ([([104, 105], 0, 0.2), ([116, 104, 101, 114, 101], 0.3, 0.5)] :: real entry list))
   \<and> (\<exists>s. for_loop hi_there 0 [104, 105, ascii_space] initial = Inr s
          \<and> prefix (subtitles s) [([104, 105], 0, 0.2), ([116, 104, 101, 114, 101], 0.3, 0.5)])"
proof -
  have chars: "characters hi_there = [104, 105, ascii_space] @ [116, 104, 101, 114, 101]"
    by (simp add: hi_there_def)
  have srt: "sorted (character_start_times_seconds hi_there)"
    by (simp add: hi_there_def)
  from entries_in_scan_order [OF hi_there_result] chars srt
  have "(\<exists>s. for_loop hi_there 0 [104, 105, ascii_space] initial = Inr s
          \<and> prefix (subtitles s) [([104, 105], 0, 0.2), ([116, 104, 101, 114, 101], 0.3, 0.5)])"
    and "sorted (map (\<lambda>(text, st, duration). st)
        ([([104, 105], 0, 0.2), ([116, 104, 101, 114, 101], 0.3, 0.5)] :: real entry list))"
    by blast+
  with hi_there_result chars srt show ?thesis by blast
qed




text \<open>
  C9. When the segmenter returns no entry, the overall duration, a maximum over the
  empty sequence of subtitle ends, has no value: \<^verbatim>\<open>max\<close> raises ValueError. A run
  that reaches it (the text synthesised, a template chosen) ends with that error
  and writes no video.
\<close>

theorem empty_subtitles_duration_fails:
  fixes w :: "'t::{numeral,minus,zero,ord} world"
  assumes "speech w = Inr al" and "create_subtitle_list al = Inr []"
    and "template_dir w \<noteq> []"
  shows "overall_duration ([] :: 't entry list) = Inl ValueError
         \<and> snd (main_block w) = Inl ValueError
         \<and> WriteVideoFile \<notin> set (fst (main_block w))"
  using assms
  by (simp add: main_block_def random_choice_def overall_duration_def)

theorem empty_subtitles_duration_fails_witness:
  "create_subtitle_list
     \<lparr>characters = [ascii_space], character_start_times_seconds = [0 :: real],
      character_end_times_seconds = [1]\<rparr> = Inr []
   \<and> template_dir only_a_space = [''background.mp4'']
   \<and> main_block only_a_space
       = ([Synthesize, ListTemplates, LoadVideo ''background.mp4'', CropVideo, AddPeterImage],
          Inl ValueError)"
proof -
  let ?al = "\<lparr>characters = [ascii_space], character_start_times_seconds = [0 :: real],
      character_end_times_seconds = [1]\<rparr>"
  have sp: "speech only_a_space = Inr ?al"
    by (simp add: only_a_space_def)
  have none: "create_subtitle_list ?al = Inr []"
    by (simp add: eval_defs)
  have tmpl: "template_dir only_a_space \<noteq> []"
    by (simp add: only_a_space_def)
  from empty_subtitles_duration_fails [OF sp none tmpl]
  have "snd (main_block only_a_space) = Inl ValueError" by simp
  moreover have "fst (main_block only_a_space)
      = [Synthesize, ListTemplates, LoadVideo ''background.mp4'', CropVideo, AddPeterImage]"
    by (simp add: main_block_def sp none random_choice_def overall_duration_def)
      (simp add: only_a_space_def)
  ultimately have "main_block only_a_space
       = ([Synthesize, ListTemplates, LoadVideo ''background.mp4'', CropVideo, AddPeterImage],
          Inl ValueError)"
    by (simp add: prod_eq_iff)
  with none show ?thesis
    by (simp add: only_a_space_def)
qed

end
